theory Spec2Isabelle
  imports Complex_Main
begin

section \<open>JavaScript values\<close>

text \<open>
  Message payloads, identifiers and correlation ids arrive as parsed JSON. Numbers are
  modelled as integers (ids, nonces and counters are integral on the wire).
\<close>

datatype jsval =
    JUndefined
  | JNull
  | JBool bool
  | JNum int
  | JStr string
  | JObj "(string \<times> jsval) list"

text \<open>JavaScript truthiness: what \<open>if (v)\<close>, \<open>!v\<close> and \<open>v || w\<close> test.\<close>

fun truthy :: "jsval \<Rightarrow> bool" where
  "truthy JUndefined = False"
| "truthy JNull = False"
| "truthy (JBool b) = b"
| "truthy (JNum n) = (n \<noteq> 0)"
| "truthy (JStr s) = (s \<noteq> [])"
| "truthy (JObj kvs) = True"

definition js_or :: "jsval \<Rightarrow> jsval \<Rightarrow> jsval" where
  "js_or a b = (if truthy a then a else b)"

definition nullish :: "jsval \<Rightarrow> bool" where
  "nullish v = (v = JUndefined \<or> v = JNull)"

text \<open>
  Property read \<open>v.k\<close> on a value that is not null or undefined: a missing property, and
  any property of a primitive that this code reads, is \<open>undefined\<close>.
\<close>

fun get_prop :: "jsval \<Rightarrow> string \<Rightarrow> jsval" where
  "get_prop (JObj kvs) k = (case map_of kvs k of Some v \<Rightarrow> v | None \<Rightarrow> JUndefined)"
| "get_prop v k = JUndefined"

text \<open>The wire envelope \<open>{name, scope: {type, id}, data, id?}\<close>; an absent field is \<open>JUndefined\<close>.\<close>

record envelope =
  msg_name :: string
  msg_scope :: jsval
  msg_data :: jsval
  msg_id :: jsval

text \<open>The scope object \<open>{type, id}\<close> as \<open>_send\<close> builds it.\<close>

definition mk_scope :: "jsval \<Rightarrow> jsval \<Rightarrow> jsval" where
  "mk_scope t i = JObj [(''type'', t), (''id'', i)]"

section \<open>Server root: \<open>PlayNetwork._onMessage\<close> and the room handlers of \<open>_onUserConnect\<close>\<close>

text \<open>
  \<open>root_events\<close> are the names with a listener on the root object (\<open>this.hasEvent\<close>),
  \<open>nodes\<close> the worker nodes in insertion order of \<open>this.nodes\<close>, the two route tables are
  \<open>this.routes.rooms\<close> and \<open>this.routes.networkEntities\<close>.
\<close>

record root_state =
  root_events :: "string set"
  nodes :: "nat list"
  routes_rooms :: "jsval \<rightharpoonup> nat"
  routes_networkEntities :: "jsval \<rightharpoonup> nat"

record user =
  user_id :: jsval
  user_events :: "string set"

text \<open>
  What the root does with a message, in order. \<open>'cb\<close> is the reply closure built by the
  socket handler. \<open>RootThrow\<close> ends the list when the source raises a TypeError.
\<close>

datatype 'cb root_action =
    RootFire string "user option" jsval 'cb
  | UserFire string jsval 'cb
  | NodeSend nat string jsval jsval 'cb
  | NodeSendMsg nat envelope jsval 'cb
  | CallbackError 'cb string
  | RootThrow

text \<open>
  The \<open>switch (msg.scope?.type)\<close>: the actions it performs and the \<open>nodes\<close> array it
  leaves. A null or undefined scope has type \<open>undefined\<close>, as \<open>get_prop\<close> gives, and matches
  no case.
\<close>

definition select_nodes ::
  "root_state \<Rightarrow> envelope \<Rightarrow> user option \<Rightarrow> 'cb \<Rightarrow> 'cb root_action list \<times> nat option list" where
  "select_nodes st msg usr cb =
     (let sc = msg_scope msg; ty = get_prop sc ''type''
      in if ty = JStr ''user'' then
           (case usr of
              None \<Rightarrow> ([RootThrow], [])
            | Some u \<Rightarrow>
                if msg_name msg \<in> user_events u
                then ([UserFire (msg_name msg) (msg_data msg) cb], [])
                else ([], map Some (nodes st)))
         else if ty = JStr ''room'' then ([], [routes_rooms st (get_prop sc ''id'')])
         else if ty = JStr ''networkEntity''
           then ([], [routes_networkEntities st (get_prop sc ''id'')])
         else ([], []))"

text \<open>
  The final loop \<open>for (const node of nodes) node?.send('_message', msg, user.id, callback)\<close>:
  an undefined node is skipped by the optional call; a defined one reads \<open>user.id\<close>, which
  raises when no user is bound to the socket yet.
\<close>

fun send_all :: "nat option list \<Rightarrow> envelope \<Rightarrow> user option \<Rightarrow> 'cb \<Rightarrow> 'cb root_action list" where
  "send_all [] msg usr cb = []"
| "send_all (None # ns) msg usr cb = send_all ns msg usr cb"
| "send_all (Some n # ns) msg usr cb =
     (case usr of
        None \<Rightarrow> [RootThrow]
      | Some u \<Rightarrow> NodeSendMsg n msg (user_id u) cb # send_all ns msg usr cb)"

definition root_onMessage ::
  "root_state \<Rightarrow> envelope \<Rightarrow> user option \<Rightarrow> 'cb \<Rightarrow> 'cb root_action list" where
  "root_onMessage st msg usr cb =
     (if msg_name msg \<in> root_events st
      then [RootFire (msg_name msg) usr (msg_data msg) cb]
      else (case select_nodes st msg usr cb of
              (acts, ns) \<Rightarrow>
                if RootThrow \<in> set acts then acts
                else if ns = [] then acts
                else acts @ send_all ns msg usr cb))"

text \<open>
  The \<open>_room:join\<close> and \<open>_room:leave\<close> listeners that \<open>_onUserConnect\<close> installs on the
  user: a missing route calls back with \<open>Error('No such room')\<close> and then, having no
  \<open>return\<close>, calls \<open>send\<close> on the undefined node.
\<close>

definition on_room_request ::
  "root_state \<Rightarrow> string \<Rightarrow> user \<Rightarrow> jsval \<Rightarrow> 'cb \<Rightarrow> 'cb root_action list" where
  "on_room_request st name u rid cb =
     (case routes_rooms st rid of
        None \<Rightarrow> [CallbackError cb ''No such room'', RootThrow]
      | Some n \<Rightarrow> [NodeSend n name rid (user_id u) cb])"

text \<open>Which actions reach a shard, and which report through the reply closure.\<close>

fun is_node_send :: "'cb root_action \<Rightarrow> bool" where
  "is_node_send (NodeSend n name d uid cb) = True"
| "is_node_send (NodeSendMsg n msg uid cb) = True"
| "is_node_send a = False"

fun is_callback_error :: "'cb root_action \<Rightarrow> bool" where
  "is_callback_error (CallbackError cb e) = True"
| "is_callback_error a = False"

section \<open>Client: the \<open>PlayNetwork\<close> router\<close>

text \<open>String conversion of a template literal \<open>`${v}`\<close>.\<close>

definition digit_char :: "nat \<Rightarrow> char" where
  "digit_char d = ''0123456789'' ! d"

function digits :: "nat \<Rightarrow> string" where
  "digits n = (if n < 10 then [digit_char n] else digits (n div 10) @ [digit_char (n mod 10)])"
  by pat_completeness auto
termination
  by (relation "measure (\<lambda>n. n)") auto

fun js_to_string :: "jsval \<Rightarrow> string" where
  "js_to_string JUndefined = ''undefined''"
| "js_to_string JNull = ''null''"
| "js_to_string (JBool b) = (if b then ''true'' else ''false'')"
| "js_to_string (JNum n) = (if n < 0 then CHR ''-'' # digits (nat (- n)) else digits (nat n))"
| "js_to_string (JStr s) = s"
| "js_to_string (JObj kvs) = ''[object Object]''"

text \<open>
  The part of the client state the router reads and writes: the correlation counter
  \<open>_lastId\<close>, the pending callbacks \<open>_callbacks\<close>, the three connection counters, and which ids
  the registries \<open>users.me\<close>, \<open>rooms\<close>, \<open>players\<close> and \<open>networkEntities\<close> hold.
\<close>

record 'cb pn_state =
  lastId :: int
  callbacks :: "int \<rightharpoonup> 'cb"
  latency :: jsval
  bandwidthIn :: jsval
  bandwidthOut :: jsval
  pn_me :: bool
  pn_rooms :: "jsval set"
  pn_players :: "jsval set"
  pn_networkEntities :: "jsval set"

text \<open>The state after \<open>new PlayNetwork()\<close> and \<open>initialize()\<close>.\<close>

definition pn_initial :: "'cb pn_state" where
  "pn_initial = \<lparr>lastId = 1, callbacks = Map.empty, latency = JNum 0, bandwidthIn = JNum 0,
     bandwidthOut = JNum 0, pn_me = False, pn_rooms = {}, pn_players = {},
     pn_networkEntities = {}\<rparr>"

datatype target = TUserMe | TRoom jsval | TPlayer jsval | TNetworkEntity jsval | TRoot

text \<open>
  What the router does, in order: call a pending callback with \<open>(err, data)\<close>, log with
  \<open>console.warn\<close>, fire an event on a scoped object or on the root, write an envelope to
  the socket, or raise a TypeError (which ends the list).
\<close>

datatype 'cb client_action =
    Invoke 'cb jsval jsval
  | Warn jsval
  | Fire target string jsval
  | SocketSend envelope
  | ClientThrow

text \<open>
  \<open>_send(name, data, scope, id, callback)\<close>. The socket is taken to be open. With a
  callback the envelope carries \<open>_lastId\<close>, the callback is stored under it and the counter
  moves on.
\<close>

definition client_send ::
  "'cb pn_state \<Rightarrow> string \<Rightarrow> jsval \<Rightarrow> jsval \<Rightarrow> jsval \<Rightarrow> 'cb option
     \<Rightarrow> 'cb pn_state \<times> 'cb client_action list" where
  "client_send st name data sc i callback =
     (case callback of
        None \<Rightarrow>
          (st, [SocketSend \<lparr>msg_name = name, msg_scope = mk_scope sc i, msg_data = data,
                            msg_id = JUndefined\<rparr>])
      | Some cb \<Rightarrow>
          (st\<lparr>lastId := lastId st + 1, callbacks := (callbacks st)(lastId st \<mapsto> cb)\<rparr>,
           [SocketSend \<lparr>msg_name = name, msg_scope = mk_scope sc i, msg_data = data,
                        msg_id = JNum (lastId st)\<rparr>]))"


text \<open>\<open>this._callbacks.get(msg.id)\<close>: the keys are the numbers \<open>_send\<close> stored.\<close>

fun callbacks_get :: "(int \<rightharpoonup> 'cb) \<Rightarrow> jsval \<Rightarrow> 'cb option" where
  "callbacks_get m (JNum n) = m n"
| "callbacks_get m v = None"

fun callbacks_delete :: "(int \<rightharpoonup> 'cb) \<Rightarrow> jsval \<Rightarrow> (int \<rightharpoonup> 'cb)" where
  "callbacks_delete m (JNum n) = m(n := None)"
| "callbacks_delete m v = m"

text \<open>\<open>msg.data?.err\<close>.\<close>

definition data_err :: "envelope \<Rightarrow> jsval" where
  "data_err msg = (if nullish (msg_data msg) then JUndefined else get_prop (msg_data msg) ''err'')"

text \<open>\<open>_onPing(data)\<close>, the listener \<open>initialize\<close> registers for \<open>_ping\<close> on the root.\<close>

definition client_onPing :: "'cb pn_state \<Rightarrow> jsval \<Rightarrow> 'cb pn_state option" where
  "client_onPing st data =
     (if nullish data then None
      else Some (st\<lparr>latency := get_prop data ''l'',
                    bandwidthIn := js_or (get_prop data ''i'') (JNum 0),
                    bandwidthOut := js_or (get_prop data ''o'') (JNum 0)\<rparr>))"

text \<open>
  \<open>this.fire(name, data)\<close> on the root: the event goes to the root's listeners; the one the
  router itself owns, \<open>_onPing\<close>, is run here.
\<close>

definition root_fire :: "'cb pn_state \<Rightarrow> string \<Rightarrow> jsval \<Rightarrow> 'cb pn_state \<times> 'cb client_action list" where
  "root_fire st name data =
     (if name = ''_ping'' then
        (case client_onPing st data of
           None \<Rightarrow> (st, [Fire TRoot name data, ClientThrow])
         | Some st' \<Rightarrow> (st', [Fire TRoot name data]))
      else (st, [Fire TRoot name data]))"

text \<open>The \<open>switch (msg.scope.type)\<close>: fire on the scoped object when the registry has it.\<close>

definition scoped_fire :: "'cb pn_state \<Rightarrow> jsval \<Rightarrow> string \<Rightarrow> jsval \<Rightarrow> 'cb client_action list" where
  "scoped_fire st sc name data =
     (let ty = get_prop sc ''type''; i = get_prop sc ''id''
      in if ty = JStr ''user'' then (if pn_me st then [Fire TUserMe name data] else [])
         else if ty = JStr ''room'' then (if i \<in> pn_rooms st then [Fire (TRoom i) name data] else [])
         else if ty = JStr ''player'' then (if i \<in> pn_players st then [Fire (TPlayer i) name data] else [])
         else if ty = JStr ''networkEntity''
           then (if i \<in> pn_networkEntities st then [Fire (TNetworkEntity i) name data] else [])
         else [])"

text \<open>
  The tail of \<open>_onMessage\<close>, from the \<open>switch\<close> on. Reading \<open>msg.scope.type\<close> of a null or
  undefined scope raises, and so does \<open>msg.data.id\<close> of null or undefined data. The test
  \<open>msg.scope !== 'user'\<close> compares the scope value itself with the string.
\<close>

definition dispatch :: "'cb pn_state \<Rightarrow> envelope \<Rightarrow> 'cb pn_state \<times> 'cb client_action list" where
  "dispatch st msg =
     (if nullish (msg_scope msg) then (st, [ClientThrow])
      else
        let fired = scoped_fire st (msg_scope msg) (msg_name msg) (msg_data msg)
        in if msg_name msg = ''_ping'' then
             (if nullish (msg_data msg) then (st, fired @ [ClientThrow])
              else
                (case client_send st ''_pong'' (JObj [(''id'', get_prop (msg_data msg) ''id'')])
                        (get_prop (msg_scope msg) ''type'') (get_prop (msg_scope msg) ''id'') None of
                   (st1, sent) \<Rightarrow>
                     if msg_scope msg \<noteq> JStr ''user'' then (st1, fired @ sent)
                     else (case root_fire st1 (msg_name msg) (msg_data msg) of
                             (st2, rf) \<Rightarrow> (st2, fired @ sent @ rf))))
           else (case root_fire st (msg_name msg) (msg_data msg) of
                   (st2, rf) \<Rightarrow> (st2, fired @ rf)))"

text \<open>\<open>_onMessage\<close> on a parsed envelope.\<close>

definition client_onMessage :: "'cb pn_state \<Rightarrow> envelope \<Rightarrow> 'cb pn_state \<times> 'cb client_action list" where
  "client_onMessage st msg =
     (if truthy (msg_id msg) then
        (case callbacks_get (callbacks st) (msg_id msg) of
           None \<Rightarrow> (st, [Warn (JStr (''No callback with id - '' @ js_to_string (msg_id msg)))])
         | Some cb \<Rightarrow>
             (st\<lparr>callbacks := callbacks_delete (callbacks st) (msg_id msg)\<rparr>,
              Invoke cb (js_or (data_err msg) JNull) (msg_data msg)
                # (if truthy (data_err msg) then [Warn (data_err msg)] else [])))
      else if truthy (data_err msg) then (st, [Warn (data_err msg)])
      else dispatch st msg)"


section \<open>Client: \<open>Rooms.join\<close> and \<open>Rooms.leave\<close>\<close>





section \<open>Client: \<open>InterpolateValue\<close>\<close>

text \<open>
  A buffered value is a number or an engine object (vector, quaternion) with contents
  \<open>'v\<close>; \<open>Undef\<close> is what \<open>shift\<close> returns on an empty array. Numbers are exact reals.
\<close>

datatype 'v ival = Num real | Undef | Obj 'v

text \<open>
  The engine's part: whether an object has a \<open>slerp\<close> method, and what \<open>lerp\<close> and \<open>slerp\<close>
  compute from \<open>(from, to, alpha)\<close>.
\<close>

record 'v engine =
  has_slerp :: "'v \<Rightarrow> bool"
  vlerp :: "'v \<Rightarrow> 'v \<Rightarrow> real \<Rightarrow> 'v"
  vslerp :: "'v \<Rightarrow> 'v \<Rightarrow> real \<Rightarrow> 'v"

record 'v interp =
  iv_type :: bool
  iv_pool :: "'v ival list"
  iv_states :: "'v ival list"
  iv_current :: nat
  iv_time :: real
  iv_speed :: real
  iv_tickrate :: real
  iv_from :: "'v ival"
  iv_value :: "'v ival"
  iv_has_object :: bool
  iv_has_setter :: bool

definition INTERPOLATION_STATES_LIMIT :: nat where
  "INTERPOLATION_STATES_LIMIT = 8"

fun is_obj :: "'v ival \<Rightarrow> bool" where
  "is_obj (Obj w) = True"
| "is_obj v = False"

text \<open>The constructor: \<open>type\<close> is set exactly for an object value.\<close>

definition iv_new :: "'v ival \<Rightarrow> bool \<Rightarrow> bool \<Rightarrow> real \<Rightarrow> 'v interp" where
  "iv_new v object setter tickrate =
     \<lparr>iv_type = is_obj v, iv_pool = [], iv_states = [], iv_current = 0, iv_time = 0,
      iv_speed = 1, iv_tickrate = tickrate, iv_from = v, iv_value = v,
      iv_has_object = object, iv_has_setter = setter\<rparr>"

text \<open>
  \<open>TypeError\<close>: a method call on \<open>undefined\<close>. \<open>Unmodelled\<close>: the buffer meets a value of
  another kind than it was built for, where the engine's coercions decide.
\<close>

datatype iv_error = TypeError | Unmodelled

text \<open>
  \<open>add(value)\<close>. For an object buffer the slot written is the shifted head when the
  queue is longer than the limit, else a pooled object, else a new one; it receives a
  copy of the value and is pushed. A number is pushed as it is.
\<close>

definition iv_add :: "'v ival \<Rightarrow> 'v interp \<Rightarrow> iv_error + 'v interp" where
  "iv_add v st =
     (if iv_type st then
        (case (if length (iv_states st) > INTERPOLATION_STATES_LIMIT
                 then (is_obj (hd (iv_states st)), st\<lparr>iv_states := tl (iv_states st)\<rparr>)
               else if iv_pool st \<noteq> []
                 then (is_obj (last (iv_pool st)), st\<lparr>iv_pool := butlast (iv_pool st)\<rparr>)
               else (True, st)) of
           (vec_ok, st') \<Rightarrow>
             if \<not> vec_ok then Inl TypeError
             else (case v of
                     Obj w \<Rightarrow> Inr (st'\<lparr>iv_states := iv_states st' @ [Obj w]\<rparr>)
                   | _ \<Rightarrow> Inl Unmodelled))
      else Inr (st\<lparr>iv_states := iv_states st @ [v]\<rparr>))"

text \<open>Adding a list of values in order, stopping at an error.\<close>

fun iv_add_all :: "'v ival list \<Rightarrow> 'v interp \<Rightarrow> iv_error + 'v interp" where
  "iv_add_all [] st = Inr st"
| "iv_add_all (v # vs) st = (case iv_add v st of Inl e \<Rightarrow> Inl e | Inr st' \<Rightarrow> iv_add_all vs st')"

text \<open>
  The loop \<open>while (this.current > 0) { vec = states.shift(); pool.push(vec); current-- }\<close>.
\<close>

fun drain :: "nat \<Rightarrow> 'v ival list \<Rightarrow> 'v ival list \<Rightarrow> 'v ival list \<times> 'v ival list" where
  "drain 0 ss pl = (ss, pl)"
| "drain (Suc k) [] pl = drain k [] (pl @ [Undef])"
| "drain (Suc k) (s # ss) pl = drain k ss (pl @ [s])"

text \<open>
  \<open>duration = 1.0 / tickrate\<close> is infinite for tick rate 0: then the blend time never
  reaches it and \<open>time / duration\<close> is 0.
\<close>

definition reaches :: "real \<Rightarrow> real \<Rightarrow> bool" where
  "reaches t tickrate = (tickrate \<noteq> 0 \<and> t \<ge> 1 / tickrate)"

definition blend_fraction :: "real \<Rightarrow> real \<Rightarrow> real" where
  "blend_fraction t tickrate = (if tickrate = 0 then 0 else min 1 (t / (1 / tickrate)))"

definition target_speed :: "nat \<Rightarrow> real" where
  "target_speed n = 1 + max 0 (min 10 (real_of_int (int n - 2))) * 0.01"

text \<open>The consumption step taken when the blend time reaches one tick.\<close>

definition consume :: "'v interp \<Rightarrow> 'v interp" where
  "consume st =
     (case drain (Suc (iv_current st)) (iv_states st) (iv_pool st) of
        (ss, pl) \<Rightarrow>
          st\<lparr>iv_time := iv_time st - 1 / iv_tickrate st, iv_current := 0,
             iv_from := iv_value st, iv_states := ss, iv_pool := pl\<rparr>)"

datatype 'v applied = NotApplied | ViaSetter "'v ival" | ViaField "'v ival"

text \<open>The interpolation and the write-back at the end of \<open>update\<close>.\<close>

definition render :: "'v engine \<Rightarrow> 'v interp \<Rightarrow> iv_error + 'v interp \<times> 'v applied" where
  "render eng st =
     (let to = (if iv_current st < length (iv_states st) then iv_states st ! iv_current st
                else Undef);
          lerp = blend_fraction (iv_time st) (iv_tickrate st);
          res =
            (if iv_type st then
               (case (iv_value st, iv_from st, to) of
                  (Obj a, Obj f, Obj t) \<Rightarrow>
                    Inr (Obj (if has_slerp eng a then vslerp eng f t lerp else vlerp eng f t lerp))
                | _ \<Rightarrow> Inl Unmodelled)
             else
               (case (iv_from st, iv_value st) of
                  (Num f, Num x) \<Rightarrow> Inr (Num (f * lerp + x * (1 - lerp)))
                | _ \<Rightarrow> Inl Unmodelled))
      in case res of
           Inl e \<Rightarrow> Inl e
         | Inr x \<Rightarrow>
             Inr (st\<lparr>iv_value := x\<rparr>,
                  if iv_has_setter st then ViaSetter x
                  else if iv_has_object st then ViaField x
                  else NotApplied))"

text \<open>\<open>update(dt)\<close>.\<close>

definition iv_update :: "'v engine \<Rightarrow> real \<Rightarrow> 'v interp \<Rightarrow> iv_error + 'v interp \<times> 'v applied" where
  "iv_update eng dt st =
     (if iv_states st = [] then Inr (st, NotApplied)
      else
        let sp = iv_speed st + (target_speed (length (iv_states st)) - iv_speed st) * 0.1;
            t = iv_time st + dt * sp;
            st1 = st\<lparr>iv_speed := sp, iv_time := t\<rparr>;
            st2 = (if reaches t (iv_tickrate st) then consume st1 else st1)
        in if iv_states st2 = [] then Inr (st2, NotApplied) else render eng st2)"

text \<open>Linear interpolation from \<open>a\<close> toward \<open>b\<close> by the fraction \<open>l\<close>, as the specification asks.\<close>

definition lerp_spec :: "real \<Rightarrow> real \<Rightarrow> real \<Rightarrow> real" where
  "lerp_spec a b l = a + (b - a) * l"

section \<open>Client: the identity registries \<open>Users\<close> and \<open>NetworkEntities\<close>\<close>

text \<open>
  Objects are known by reference (\<open>ref\<close>); \<open>id_of\<close> reads an object's \<open>id\<close> field, which
  nothing in these classes assigns after construction. The registry holds the index map
  and, in \<open>once_destroy\<close>, the objects on whose \<open>destroy\<close> event it has a pending \<open>once\<close>
  listener, one entry per listener, in registration order.
\<close>

type_synonym ref = nat

record 'i registry =
  index :: "'i \<rightharpoonup> ref"
  once_destroy :: "ref list"

definition registry_empty :: "'i registry" where
  "registry_empty = \<lparr>index = Map.empty, once_destroy = []\<rparr>"

definition registry_has :: "'i registry \<Rightarrow> 'i \<Rightarrow> bool" where
  "registry_has g i = (index g i \<noteq> None)"

definition registry_get :: "'i registry \<Rightarrow> 'i \<Rightarrow> ref option" where
  "registry_get g i = index g i"

text \<open>\<open>add(obj)\<close>: nothing when the id is present; else store and listen once for \<open>destroy\<close>.\<close>

definition registry_add :: "(ref \<Rightarrow> 'i) \<Rightarrow> ref \<Rightarrow> 'i registry \<Rightarrow> 'i registry" where
  "registry_add id_of r g =
     (if registry_has g (id_of r) then g
      else g\<lparr>index := (index g)(id_of r \<mapsto> r), once_destroy := once_destroy g @ [r]\<rparr>)"

text \<open>
  The object \<open>r\<close> fires \<open>destroy\<close>: each listener this registry holds on \<open>r\<close> runs
  \<open>index.delete(obj.id)\<close> and, being a \<open>once\<close> listener, is gone afterwards.
\<close>

fun run_listeners :: "(ref \<Rightarrow> 'i) \<Rightarrow> ref list \<Rightarrow> ref \<Rightarrow> ('i \<rightharpoonup> ref) \<Rightarrow> ('i \<rightharpoonup> ref)" where
  "run_listeners id_of [] r m = m"
| "run_listeners id_of (x # xs) r m =
     run_listeners id_of xs r (if x = r then m(id_of x := None) else m)"

definition registry_on_destroy :: "(ref \<Rightarrow> 'i) \<Rightarrow> ref \<Rightarrow> 'i registry \<Rightarrow> 'i registry" where
  "registry_on_destroy id_of r g =
     g\<lparr>index := run_listeners id_of (once_destroy g) r (index g),
       once_destroy := removeAll r (once_destroy g)\<rparr>"

datatype reg_op = Add ref | DestroySignal ref

fun registry_step :: "(ref \<Rightarrow> 'i) \<Rightarrow> 'i registry \<Rightarrow> reg_op \<Rightarrow> 'i registry" where
  "registry_step id_of g (Add r) = registry_add id_of r g"
| "registry_step id_of g (DestroySignal r) = registry_on_destroy id_of r g"

definition registry_run :: "(ref \<Rightarrow> 'i) \<Rightarrow> reg_op list \<Rightarrow> 'i registry" where
  "registry_run id_of ops = foldl (registry_step id_of) registry_empty ops"

text \<open>
  The specification's reading of a history, most recent operation first: the object whose
  add under id \<open>i\<close> took effect and whose destroy signal has not fired since.
\<close>

fun holder :: "(ref \<Rightarrow> 'i) \<Rightarrow> reg_op list \<Rightarrow> 'i \<Rightarrow> ref option" where
  "holder id_of [] i = None"
| "holder id_of (Add r # earlier) i =
     (if id_of r = i \<and> holder id_of earlier i = None then Some r else holder id_of earlier i)"
| "holder id_of (DestroySignal r # earlier) i =
     (if holder id_of earlier i = Some r then None else holder id_of earlier i)"

text \<open>
  The registry invariant: every indexed object is stored under its own id and is listened
  to, and every object listened to is indexed.
\<close>

definition registry_inv :: "(ref \<Rightarrow> 'i) \<Rightarrow> 'i registry \<Rightarrow> bool" where
  "registry_inv id_of g =
     ((\<forall>i r. index g i = Some r \<longrightarrow> id_of r = i \<and> r \<in> set (once_destroy g))
      \<and> (\<forall>r \<in> set (once_destroy g). index g (id_of r) = Some r))"

section \<open>Client: \<open>Room._onNetworkEntityDelete\<close>\<close>

text \<open>
  A room adds each network entity to its own registry and to the global one
  (\<open>_onNetworkEntityAdd\<close>); \<open>entity.destroy()\<close> fires the entity's \<open>destroy\<close> event, which both
  registries listen to.
\<close>

record 'i room_entities =
  room_networkEntities :: "'i registry"
  pn_networkEntities_reg :: "'i registry"

definition room_entities_empty :: "'i room_entities" where
  "room_entities_empty = \<lparr>room_networkEntities = registry_empty, pn_networkEntities_reg = registry_empty\<rparr>"

definition onNetworkEntityAdd :: "(ref \<Rightarrow> 'i) \<Rightarrow> ref \<Rightarrow> 'i room_entities \<Rightarrow> 'i room_entities" where
  "onNetworkEntityAdd id_of r s =
     s\<lparr>room_networkEntities := registry_add id_of r (room_networkEntities s),
       pn_networkEntities_reg := registry_add id_of r (pn_networkEntities_reg s)\<rparr>"

definition entity_destroy :: "(ref \<Rightarrow> 'i) \<Rightarrow> ref \<Rightarrow> 'i room_entities \<Rightarrow> 'i room_entities" where
  "entity_destroy id_of r s =
     s\<lparr>room_networkEntities := registry_on_destroy id_of r (room_networkEntities s),
       pn_networkEntities_reg := registry_on_destroy id_of r (pn_networkEntities_reg s)\<rparr>"

text \<open>
  \<open>_onNetworkEntityDelete(id)\<close>: the state afterwards and the entities whose \<open>destroy()\<close>
  was called, in order.
\<close>

definition onNetworkEntityDelete ::
  "(ref \<Rightarrow> 'i) \<Rightarrow> 'i \<Rightarrow> 'i room_entities \<Rightarrow> 'i room_entities \<times> ref list" where
  "onNetworkEntityDelete id_of i s =
     (case registry_get (room_networkEntities s) i of
        None \<Rightarrow> (s, [])
      | Some r \<Rightarrow> (entity_destroy id_of r s, [r]))"

datatype room_msg = EntityAdd ref | EntityDelete jsval

text \<open>A room's history of add and delete messages, with the destroy calls it made.\<close>

fun room_step ::
  "(ref \<Rightarrow> jsval) \<Rightarrow> jsval room_entities \<times> ref list \<Rightarrow> room_msg \<Rightarrow> jsval room_entities \<times> ref list" where
  "room_step id_of (s, ds) (EntityAdd r) = (onNetworkEntityAdd id_of r s, ds)"
| "room_step id_of (s, ds) (EntityDelete i) =
     (case onNetworkEntityDelete id_of i s of (s', d) \<Rightarrow> (s', ds @ d))"

definition room_run :: "(ref \<Rightarrow> jsval) \<Rightarrow> room_msg list \<Rightarrow> jsval room_entities \<times> ref list" where
  "room_run id_of ms = foldl (room_step id_of) (room_entities_empty, []) ms"

text \<open>Both registries of a room satisfy the registry invariant.\<close>

definition room_inv :: "(ref \<Rightarrow> 'i) \<Rightarrow> 'i room_entities \<Rightarrow> bool" where
  "room_inv id_of s =
     (registry_inv id_of (room_networkEntities s) \<and> registry_inv id_of (pn_networkEntities_reg s))"

section \<open>Client: \<open>User.addPlayer\<close>\<close>

text \<open>
  \<open>_playersByRoom\<close> is a \<open>Map\<close> from room to player, kept here as an association list with
  one pair per key; its \<open>size\<close> is the length.
\<close>

type_synonym room_ref = nat
type_synonym player_ref = nat

definition map_delete :: "room_ref \<Rightarrow> (room_ref \<times> player_ref) list \<Rightarrow> (room_ref \<times> player_ref) list" where
  "map_delete k m = filter (\<lambda>kv. fst kv \<noteq> k) m"

definition map_set ::
  "room_ref \<Rightarrow> player_ref \<Rightarrow> (room_ref \<times> player_ref) list \<Rightarrow> (room_ref \<times> player_ref) list" where
  "map_set k v m =
     (if k \<in> fst ` set m then map (\<lambda>kv. if fst kv = k then (k, v) else kv) m else m @ [(k, v)])"

datatype user_event = EvJoin room_ref player_ref | EvLeave room_ref player_ref | EvDestroy

text \<open>
  The user's fields, the \<open>once\<close> listeners \<open>addPlayer\<close> has placed on players' and rooms'
  \<open>destroy\<close> events (each closure with the room and player it captured), and the events the
  user has fired, oldest first. \<open>EvDestroy\<close> is \<open>this.destroy()\<close>.
\<close>

record user_state =
  u_me :: bool
  u_rooms :: "room_ref set"
  u_players :: "player_ref set"
  playersByRoom :: "(room_ref \<times> player_ref) list"
  on_player_destroy :: "(player_ref \<times> room_ref) list"
  on_room_destroy :: "room_ref list"
  fired :: "user_event list"

definition user_new :: "bool \<Rightarrow> user_state" where
  "user_new me = \<lparr>u_me = me, u_rooms = {}, u_players = {}, playersByRoom = [],
     on_player_destroy = [], on_room_destroy = [], fired = []\<rparr>"

text \<open>\<open>addPlayer(player)\<close>, with \<open>room = player.room\<close>.\<close>

definition addPlayer :: "player_ref \<Rightarrow> room_ref \<Rightarrow> user_state \<Rightarrow> user_state" where
  "addPlayer p room u =
     u\<lparr>u_rooms := insert room (u_rooms u),
       u_players := insert p (u_players u),
       playersByRoom := map_set room p (playersByRoom u),
       on_room_destroy := on_room_destroy u @ [room],
       on_player_destroy := on_player_destroy u @ [(p, room)],
       fired := fired u @ [EvJoin room p]\<rparr>"

text \<open>The body of the listener placed on the player's \<open>destroy\<close> event.\<close>

definition player_destroyed :: "player_ref \<times> room_ref \<Rightarrow> user_state \<Rightarrow> user_state" where
  "player_destroyed c u =
     (let u1 = u\<lparr>u_rooms := u_rooms u - {snd c},
                 u_players := u_players u - {fst c},
                 playersByRoom := map_delete (snd c) (playersByRoom u),
                 fired := fired u @ [EvLeave (snd c) (fst c)]\<rparr>
      in if u_me u1 \<or> length (playersByRoom u1) > 0 then u1
         else u1\<lparr>fired := fired u1 @ [EvDestroy]\<rparr>)"

text \<open>Player \<open>p\<close> fires \<open>destroy\<close>: its listeners run in registration order and are removed.\<close>

definition fire_player_destroy :: "player_ref \<Rightarrow> user_state \<Rightarrow> user_state" where
  "fire_player_destroy p u =
     fold player_destroyed (filter (\<lambda>c. fst c = p) (on_player_destroy u))
       (u\<lparr>on_player_destroy := filter (\<lambda>c. fst c \<noteq> p) (on_player_destroy u)\<rparr>)"

text \<open>Room \<open>room\<close> fires \<open>destroy\<close>: \<open>this.rooms.delete(room)\<close>.\<close>

definition fire_room_destroy :: "room_ref \<Rightarrow> user_state \<Rightarrow> user_state" where
  "fire_room_destroy room u =
     (if room \<in> set (on_room_destroy u)
      then u\<lparr>u_rooms := u_rooms u - {room}, on_room_destroy := removeAll room (on_room_destroy u)\<rparr>
      else u)"

datatype user_op = AddPlayer player_ref room_ref | PlayerDestroy player_ref | RoomDestroy room_ref

fun user_step :: "user_state \<Rightarrow> user_op \<Rightarrow> user_state" where
  "user_step u (AddPlayer p room) = addPlayer p room u"
| "user_step u (PlayerDestroy p) = fire_player_destroy p u"
| "user_step u (RoomDestroy room) = fire_room_destroy room u"

definition user_run :: "bool \<Rightarrow> user_op list \<Rightarrow> user_state" where
  "user_run me ops = foldl user_step (user_new me) ops"

text \<open>
  The user invariant: every room key of \<open>_playersByRoom\<close> belongs to a player of the user
  whose destroy listener is pending, and every player of the user has one pending.
\<close>

definition user_inv :: "user_state \<Rightarrow> bool" where
  "user_inv u =
     ((\<forall>k \<in> fst ` set (playersByRoom u). \<exists>q \<in> u_players u. (q, k) \<in> set (on_player_destroy u))
      \<and> (\<forall>p \<in> u_players u. \<exists>k. (p, k) \<in> set (on_player_destroy u)))"

section \<open>Properties of the server root\<close>

text \<open>
  C10. A message whose name has a listener on the root object is fired on the root with
  (user, data, callback) and nothing else happens: no shard receives it, whatever its
  scope says.
\<close>

theorem root_listener_takes_precedence:
  assumes "msg_name msg \<in> root_events st"
  shows "root_onMessage st msg usr cb = [RootFire (msg_name msg) usr (msg_data msg) cb]
         \<and> filter is_node_send (root_onMessage st msg usr cb) = []"
  using assms by (simp add: root_onMessage_def)

theorem root_listener_takes_precedence_witness:
  "''chat'' \<in> {''chat''} \<and>
   root_onMessage
     \<lparr>root_events = {''chat''}, nodes = [0, 1], routes_rooms = [JNum 7 \<mapsto> 1],
      routes_networkEntities = Map.empty\<rparr>
     \<lparr>msg_name = ''chat'', msg_scope = mk_scope (JStr ''room'') (JNum 7), msg_data = JStr ''hi'',
      msg_id = JUndefined\<rparr>
     (Some \<lparr>user_id = JNum 3, user_events = {}\<rparr>) (0::nat)
   = [RootFire ''chat'' (Some \<lparr>user_id = JNum 3, user_events = {}\<rparr>) (JStr ''hi'') 0]"
  using root_listener_takes_precedence
    [of "\<lparr>msg_name = ''chat'', msg_scope = mk_scope (JStr ''room'') (JNum 7), msg_data = JStr ''hi'',
      msg_id = JUndefined\<rparr>"
     "\<lparr>root_events = {''chat''}, nodes = [0, 1], routes_rooms = [JNum 7 \<mapsto> 1],
      routes_networkEntities = Map.empty\<rparr>"
     "Some \<lparr>user_id = JNum 3, user_events = {}\<rparr>" "0::nat"]
  by simp

text \<open>
  C1. A connected user sends a room-scoped request with correlation id 3 for room 7,
  which no shard owns. The root produces no action at all: no shard receives the message
  and the reply closure is never called, so no error reaches the caller.
\<close>

theorem unowned_room_message_dropped:
  "root_onMessage
     \<lparr>root_events = {}, nodes = [0, 1], routes_rooms = Map.empty,
      routes_networkEntities = Map.empty\<rparr>
     \<lparr>msg_name = ''move'', msg_scope = mk_scope (JStr ''room'') (JNum 7), msg_data = JNull,
      msg_id = JNum 3\<rparr>
     (Some \<lparr>user_id = JNum 1, user_events = {}\<rparr>) (0::nat)
   = []"
  by (simp add: root_onMessage_def select_nodes_def mk_scope_def)

text \<open>
  The sibling path: the \<open>_room:join\<close> and \<open>_room:leave\<close> listeners do call back with an
  error when the room has no owner.
\<close>

lemma room_request_reports_missing_owner:
  "routes_rooms st rid = None \<Longrightarrow>
   filter is_callback_error (on_room_request st name u rid cb) = [CallbackError cb ''No such room'']"
  by (simp add: on_room_request_def)

section \<open>Properties of the client router\<close>


text \<open>Dispatch by scope invokes no pending callback and leaves them all pending.\<close>

lemma root_fire_keeps_callbacks: "callbacks (fst (root_fire st name data)) = callbacks st"
  by (simp add: root_fire_def client_onPing_def split: option.splits)



lemma dispatch_keeps_callbacks: "callbacks (fst (dispatch st msg)) = callbacks st"
  by (simp add: dispatch_def client_send_def Let_def split_beta root_fire_keeps_callbacks)





text \<open>
  The round trip: a request sent with a callback, answered under the id it was given,
  invokes that callback once, with null for a plain reply and with the error for an
  error reply. The counter starts at 1 and only grows, and no callback is ever pending
  under 0.
\<close>

lemma send_then_reply:
  assumes "lastId st \<noteq> 0"
  shows "snd (client_onMessage (fst (client_send st name data sc i (Some cb)))
                   \<lparr>msg_name = n, msg_scope = s, msg_data = JObj [(''ok'', JBool True)],
                    msg_id = JNum (lastId st)\<rparr>)
         = [Invoke cb JNull (JObj [(''ok'', JBool True)])]
       \<and> snd (client_onMessage (fst (client_send st name data sc i (Some cb)))
                   \<lparr>msg_name = n, msg_scope = s, msg_data = JObj [(''err'', JStr e)],
                    msg_id = JNum (lastId st)\<rparr>)
         = (if e = [] then [Invoke cb JNull (JObj [(''err'', JStr e)])]
            else [Invoke cb (JStr e) (JObj [(''err'', JStr e)]), Warn (JStr e)])"
  using assms
  by (simp add: client_send_def client_onMessage_def data_err_def nullish_def js_or_def)

lemma send_keeps_ids_positive:
  "1 \<le> lastId st \<Longrightarrow> 1 \<le> lastId (fst (client_send st name data sc i callback))"
  by (cases callback) (simp_all add: client_send_def)

lemma pending_ids_positive:
  assumes "1 \<le> lastId st" and "callbacks st 0 = None"
  shows "callbacks (fst (client_send st name data sc i callback)) 0 = None"
    and "callbacks (fst (client_onMessage st msg)) 0 = None"
proof -
  show "callbacks (fst (client_send st name data sc i callback)) 0 = None"
    using assms by (cases callback) (simp_all add: client_send_def)
  show "callbacks (fst (client_onMessage st msg)) 0 = None"
  proof (cases "truthy (msg_id msg)")
    case True
    then show ?thesis using assms(2)
      by (cases "msg_id msg") (simp_all add: client_onMessage_def split: option.splits)
  next
    case False
    then show ?thesis using assms(2) by (simp add: client_onMessage_def dispatch_keeps_callbacks)
  qed
qed

text \<open>
  C6. A user-scoped ping \<open>{id: 7, l: 42, i: 100, o: 200}\<close> received in the initial state
  (with the local user known): the pong \<open>{id: 7}\<close> goes out on the same scope, but the root's
  \<open>_ping\<close> event is not fired, so \<open>_onPing\<close> does not run and latency and both bandwidth
  counters keep their initial value 0.
\<close>

theorem ping_counters_unchanged:
  "client_onMessage ((pn_initial :: nat pn_state)\<lparr>pn_me := True\<rparr>)
     \<lparr>msg_name = ''_ping'', msg_scope = mk_scope (JStr ''user'') JNull,
      msg_data = JObj [(''id'', JNum 7), (''l'', JNum 42), (''i'', JNum 100), (''o'', JNum 200)],
      msg_id = JUndefined\<rparr>
   = (pn_initial\<lparr>pn_me := True\<rparr>,
      [Fire TUserMe ''_ping'' (JObj [(''id'', JNum 7), (''l'', JNum 42), (''i'', JNum 100), (''o'', JNum 200)]),
       SocketSend \<lparr>msg_name = ''_pong'', msg_scope = mk_scope (JStr ''user'') JNull,
         msg_data = JObj [(''id'', JNum 7)], msg_id = JUndefined\<rparr>])"
  by (simp add: client_onMessage_def dispatch_def scoped_fire_def client_send_def data_err_def
      nullish_def mk_scope_def pn_initial_def)

text \<open>
  More generally, no ping whose scope is anything but the bare string \<open>'user'\<close> changes the
  three counters; an envelope's scope is an object.
\<close>

lemma ping_object_scope_keeps_counters:
  assumes "msg_name msg = ''_ping''" and "msg_scope msg \<noteq> JStr ''user''"
  shows "latency (fst (client_onMessage st msg)) = latency st
       \<and> bandwidthIn (fst (client_onMessage st msg)) = bandwidthIn st
       \<and> bandwidthOut (fst (client_onMessage st msg)) = bandwidthOut st"
  using assms
  by (simp add: client_onMessage_def dispatch_def client_send_def Let_def split: option.splits)

text \<open>What \<open>_onPing\<close> would have stored had the event reached it.\<close>

lemma onPing_reads_payload:
  "client_onPing (pn_initial :: nat pn_state)
     (JObj [(''id'', JNum 7), (''l'', JNum 42), (''i'', JNum 100), (''o'', JNum 200)])
   = Some (pn_initial\<lparr>latency := JNum 42, bandwidthIn := JNum 100, bandwidthOut := JNum 200\<rparr>)"
  by (simp add: client_onPing_def nullish_def js_or_def)



section \<open>Properties of \<open>InterpolateValue\<close>\<close>

text \<open>
  C4. Nine adds to a fresh vector buffer leave nine pending targets, one more than the
  limit of 8: the test is \<open>length > limit\<close>, so the head is shifted out only from the tenth
  add on. A number buffer has no bound: twelve adds leave twelve.
\<close>

theorem queue_reaches_nine:
  "(case iv_add_all (replicate 9 (Obj (1::nat))) (iv_new (Obj 0) False False 20) of
      Inr st \<Rightarrow> Some (length (iv_states st)) | Inl e \<Rightarrow> None) = Some 9
   \<and> (case iv_add_all (replicate 12 (Num 1)) (iv_new (Num 0 :: nat ival) False False 20) of
      Inr st \<Rightarrow> Some (length (iv_states st)) | Inl e \<Rightarrow> None) = Some 12"
  by (simp add: iv_add_def iv_new_def INTERPOLATION_STATES_LIMIT_def eval_nat_numeral)

text \<open>
  What \<open>add\<close> does to an object buffer: the queue grows until it holds nine, and from
  then on each add drops the oldest target and appends the new one.
\<close>

lemma iv_add_object_length:
  assumes "iv_type st" and "iv_add v st = Inr st'"
  shows "length (iv_states st') =
           (if length (iv_states st) > INTERPOLATION_STATES_LIMIT then length (iv_states st)
            else Suc (length (iv_states st)))"
  using assms
  by (auto simp add: iv_add_def INTERPOLATION_STATES_LIMIT_def split: if_splits ival.splits)

lemma iv_add_evicts_oldest:
  assumes "iv_type st" and "length (iv_states st) > INTERPOLATION_STATES_LIMIT"
    and "iv_add (Obj w) st = Inr st'"
  shows "iv_states st' = tl (iv_states st) @ [Obj w]"
  using assms
  by (auto simp add: iv_add_def split: if_splits)

text \<open>
  C5. A number buffer at 0 with tick rate 1 receives the target 10 and is ticked by half
  a tick. The blend fraction is 1/2 and the setter is called, but with 0: the number
  branch blends \<open>from\<close> with the current value and never reads the target. Linear
  interpolation from 0 toward 10 by 1/2 is 5.
\<close>

theorem scalar_blend_ignores_target:
  "(case iv_add (Num 10) (iv_new (Num 0 :: nat ival) False True 1) of
      Inl e \<Rightarrow> None
    | Inr st \<Rightarrow>
        (case iv_update \<lparr>has_slerp = (\<lambda>v. False), vlerp = (\<lambda>a b l. b), vslerp = (\<lambda>a b l. b)\<rparr> (1 / 2) st of
           Inl e \<Rightarrow> None
         | Inr (st', a) \<Rightarrow>
             Some (iv_states st', iv_from st', blend_fraction (iv_time st') (iv_tickrate st'),
                   iv_value st', a)))
     = Some ([Num 10], Num 0, 1 / 2, Num 0, ViaSetter (Num 0))
   \<and> lerp_spec 0 10 (1 / 2) = 5"
  by (simp add: iv_add_def iv_new_def iv_update_def render_def target_speed_def reaches_def
      blend_fraction_def lerp_spec_def Let_def)

text \<open>
  The object branch does interpolate from \<open>from\<close> toward the head target by the blend
  fraction, with \<open>slerp\<close> when the value has one and \<open>lerp\<close> otherwise, and writes the
  result through the setter, else to the bound field. The number branch leaves a value
  that equals \<open>from\<close> where it is, whatever the target.
\<close>

lemma render_object_interpolates:
  assumes "iv_type st" and "iv_value st = Obj a" and "iv_from st = Obj f"
    and "iv_current st = 0" and "iv_states st = Obj t # rest"
  shows "render eng st =
           Inr (st\<lparr>iv_value := Obj (if has_slerp eng a
                                       then vslerp eng f t (blend_fraction (iv_time st) (iv_tickrate st))
                                       else vlerp eng f t (blend_fraction (iv_time st) (iv_tickrate st)))\<rparr>,
                if iv_has_setter st
                then ViaSetter (Obj (if has_slerp eng a
                                       then vslerp eng f t (blend_fraction (iv_time st) (iv_tickrate st))
                                       else vlerp eng f t (blend_fraction (iv_time st) (iv_tickrate st))))
                else if iv_has_object st
                then ViaField (Obj (if has_slerp eng a
                                       then vslerp eng f t (blend_fraction (iv_time st) (iv_tickrate st))
                                       else vlerp eng f t (blend_fraction (iv_time st) (iv_tickrate st))))
                else NotApplied)"
  using assms by (simp add: render_def Let_def)

lemma render_number_keeps_settled_value:
  assumes "\<not> iv_type st" and "iv_value st = Num x" and "iv_from st = Num x"
  shows "\<exists>a. render eng st = Inr (st, a)"
  using assms by (simp add: render_def Let_def algebra_simps)

section \<open>Properties of the identity registries\<close>

lemma run_listeners_absent: "r \<notin> set xs \<Longrightarrow> run_listeners id_of xs r m = m"
  by (induction xs arbitrary: m) auto

lemma run_listeners_present:
  "r \<in> set xs \<Longrightarrow> run_listeners id_of xs r m = m(id_of r := None)"
proof (induction xs arbitrary: m)
  case Nil
  then show ?case by simp
next
  case (Cons x xs)
  show ?case
  proof (cases "r \<in> set xs")
    case True
    then show ?thesis using Cons.IH by (cases "x = r") auto
  next
    case False
    with Cons.prems have "x = r" by simp
    then show ?thesis using False by (simp add: run_listeners_absent)
  qed
qed

lemma registry_inv_id: "registry_inv id_of g \<Longrightarrow> index g i = Some r \<Longrightarrow> id_of r = i"
  unfolding registry_inv_def by blast

lemma registry_inv_listening:
  "registry_inv id_of g \<Longrightarrow> index g i = Some r \<Longrightarrow> r \<in> set (once_destroy g)"
  unfolding registry_inv_def by blast

lemma registry_inv_indexed:
  "registry_inv id_of g \<Longrightarrow> r \<in> set (once_destroy g) \<Longrightarrow> index g (id_of r) = Some r"
  unfolding registry_inv_def by blast

lemma registry_invI:
  assumes "\<And>i r. index g i = Some r \<Longrightarrow> id_of r = i \<and> r \<in> set (once_destroy g)"
    and "\<And>r. r \<in> set (once_destroy g) \<Longrightarrow> index g (id_of r) = Some r"
  shows "registry_inv id_of g"
  unfolding registry_inv_def using assms by blast

lemma registry_inv_empty: "registry_inv id_of registry_empty"
  by (rule registry_invI) (simp_all add: registry_empty_def)

lemma registry_inv_add:
  assumes "registry_inv id_of g"
  shows "registry_inv id_of (registry_add id_of r g)"
proof (cases "registry_has g (id_of r)")
  case True
  then show ?thesis using assms by (simp add: registry_add_def)
next
  case False
  then have free: "index g (id_of r) = None" by (simp add: registry_has_def)
  have new: "registry_add id_of r g
      = g\<lparr>index := (index g)(id_of r \<mapsto> r), once_destroy := once_destroy g @ [r]\<rparr>"
    using False by (simp add: registry_add_def)
  show ?thesis
    unfolding new
  proof (rule registry_invI)
    fix i q
    assume h: "index (g\<lparr>index := (index g)(id_of r \<mapsto> r), once_destroy := once_destroy g @ [r]\<rparr>) i = Some q"
    show "id_of q = i \<and> q \<in> set (once_destroy (g\<lparr>index := (index g)(id_of r \<mapsto> r), once_destroy := once_destroy g @ [r]\<rparr>))"
    proof (cases "i = id_of r")
      case True
      with h show ?thesis by simp
    next
      case False
      with h have old: "index g i = Some q" by simp
      show ?thesis
        using registry_inv_id [OF assms old] registry_inv_listening [OF assms old] by simp
    qed
  next
    fix q
    assume h: "q \<in> set (once_destroy (g\<lparr>index := (index g)(id_of r \<mapsto> r), once_destroy := once_destroy g @ [r]\<rparr>))"
    show "index (g\<lparr>index := (index g)(id_of r \<mapsto> r), once_destroy := once_destroy g @ [r]\<rparr>) (id_of q) = Some q"
    proof (cases "q = r")
      case True
      then show ?thesis by simp
    next
      case False
      with h have "q \<in> set (once_destroy g)" by simp
      then have old: "index g (id_of q) = Some q" by (rule registry_inv_indexed [OF assms])
      with free have "id_of q \<noteq> id_of r" by auto
      with old show ?thesis by simp
    qed
  qed
qed

lemma registry_on_destroy_index:
  "index (registry_on_destroy id_of r g) =
     (if r \<in> set (once_destroy g) then (index g)(id_of r := None) else index g)"
  by (simp add: registry_on_destroy_def run_listeners_absent run_listeners_present)

lemma registry_on_destroy_listeners:
  "once_destroy (registry_on_destroy id_of r g) = removeAll r (once_destroy g)"
  by (simp add: registry_on_destroy_def)

lemma registry_inv_on_destroy:
  assumes "registry_inv id_of g"
  shows "registry_inv id_of (registry_on_destroy id_of r g)"
proof (cases "r \<in> set (once_destroy g)")
  case False
  then have "registry_on_destroy id_of r g = g"
    by (simp add: registry_on_destroy_def run_listeners_absent)
  then show ?thesis using assms by simp
next
  case True
  then have ix: "index (registry_on_destroy id_of r g) = (index g)(id_of r := None)"
    by (simp add: registry_on_destroy_index)
  have held: "index g (id_of r) = Some r" by (rule registry_inv_indexed [OF assms True])
  show ?thesis
  proof (rule registry_invI)
    fix i q
    assume "index (registry_on_destroy id_of r g) i = Some q"
    then have ne: "i \<noteq> id_of r" and old: "index g i = Some q"
      unfolding ix by (simp_all split: if_splits)
    have qi: "id_of q = i" by (rule registry_inv_id [OF assms old])
    have "q \<in> set (once_destroy g)" by (rule registry_inv_listening [OF assms old])
    moreover have "q \<noteq> r" using qi ne by auto
    ultimately show "id_of q = i \<and> q \<in> set (once_destroy (registry_on_destroy id_of r g))"
      using qi by (simp add: registry_on_destroy_listeners)
  next
    fix q
    assume "q \<in> set (once_destroy (registry_on_destroy id_of r g))"
    then have q: "q \<in> set (once_destroy g)" and ne: "q \<noteq> r"
      by (simp_all add: registry_on_destroy_listeners)
    have old: "index g (id_of q) = Some q" by (rule registry_inv_indexed [OF assms q])
    with held ne have "id_of q \<noteq> id_of r" by auto
    with old show "index (registry_on_destroy id_of r g) (id_of q) = Some q"
      unfolding ix by simp
  qed
qed

lemma registry_inv_step: "registry_inv id_of g \<Longrightarrow> registry_inv id_of (registry_step id_of g op)"
  by (cases op) (simp_all add: registry_inv_add registry_inv_on_destroy)

lemma registry_run_snoc:
  "registry_run id_of (ops @ [op]) = registry_step id_of (registry_run id_of ops) op"
  by (simp add: registry_run_def)

lemma registry_inv_run: "registry_inv id_of (registry_run id_of ops)"
proof (induction ops rule: rev_induct)
  case Nil
  then show ?case by (simp add: registry_run_def registry_inv_empty)
next
  case (snoc op ops)
  then show ?case by (simp add: registry_run_snoc registry_inv_step)
qed

text \<open>The index after a history is the holder the history determines.\<close>

lemma registry_index_holder: "index (registry_run id_of ops) i = holder id_of (rev ops) i"
proof (induction ops arbitrary: i rule: rev_induct)
  case Nil
  then show ?case by (simp add: registry_run_def registry_empty_def)
next
  case (snoc op ops)
  let ?g = "registry_run id_of ops"
  have inv: "registry_inv id_of ?g" by (rule registry_inv_run)
  show ?case
  proof (cases op)
    case (Add r)
    then show ?thesis using snoc.IH
      by (simp add: registry_run_snoc registry_add_def registry_has_def)
  next
    case (DestroySignal r)
    show ?thesis
    proof (cases "index ?g i = Some r")
      case True
      then have "id_of r = i" and "r \<in> set (once_destroy ?g)"
        using registry_inv_id [OF inv True] registry_inv_listening [OF inv True] by simp_all
      then show ?thesis using DestroySignal True snoc.IH [of i]
        by (simp add: registry_run_snoc registry_on_destroy_index)
    next
      case False
      have "index (registry_on_destroy id_of r ?g) i = index ?g i"
      proof (cases "r \<in> set (once_destroy ?g) \<and> i = id_of r")
        case True
        then have "index ?g i = Some r" using registry_inv_indexed [OF inv] by simp
        with False show ?thesis by simp
      next
        case False
        then show ?thesis by (auto simp add: registry_on_destroy_index)
      qed
      then show ?thesis using DestroySignal False snoc.IH [of i]
        by (simp add: registry_run_snoc)
    qed
  qed
qed

lemma registry_destroy_removes:
  assumes "registry_inv id_of g" and "index g i = Some r"
  shows "index (registry_on_destroy id_of r g) i = None"
proof -
  have "id_of r = i" by (rule registry_inv_id [OF assms])
  moreover have "r \<in> set (once_destroy g)" by (rule registry_inv_listening [OF assms])
  ultimately show ?thesis by (simp add: registry_on_destroy_index)
qed

text \<open>
  C3. After any history of adds and destroy signals, starting from the empty registry,
  \<open>has(id)\<close> is true exactly when some object was added under that id while the id was
  free and that object's destroy signal has not fired since. Adding under a present id
  changes nothing; right after an add the id is present; and when the object stored
  under an id fires its destroy signal the id is absent, with no remove call.
\<close>

theorem registry_has_between_add_and_destroy:
  "(registry_has (registry_run id_of ops) i \<longleftrightarrow> holder id_of (rev ops) i \<noteq> None)
   \<and> (registry_has g (id_of r) \<longrightarrow> registry_add id_of r g = g)
   \<and> registry_has (registry_run id_of (ops @ [Add r])) (id_of r)
   \<and> (registry_get (registry_run id_of ops) i = Some r \<longrightarrow>
        \<not> registry_has (registry_run id_of (ops @ [DestroySignal r])) i)"
proof -
  have "\<not> registry_has (registry_run id_of (ops @ [DestroySignal r])) i"
    if "registry_get (registry_run id_of ops) i = Some r"
    using registry_destroy_removes [OF registry_inv_run, of id_of ops i r] that
    by (simp add: registry_get_def registry_has_def registry_run_snoc)
  moreover have "registry_has (registry_run id_of (ops @ [Add r])) (id_of r)"
    by (simp add: registry_run_snoc registry_add_def registry_has_def)
  moreover have "registry_has (registry_run id_of ops) i \<longleftrightarrow> holder id_of (rev ops) i \<noteq> None"
    by (simp add: registry_has_def registry_index_holder)
  moreover have "registry_has g (id_of r) \<longrightarrow> registry_add id_of r g = g"
    by (simp add: registry_add_def)
  ultimately show ?thesis by blast
qed

theorem registry_has_between_add_and_destroy_witness:
  "registry_has (registry_run (\<lambda>r. r mod 2) [Add 4, Add 6, Add 3]) (0::nat)
   \<and> registry_get (registry_run (\<lambda>r. r mod 2) [Add 4, Add 6, Add 3]) 0 = Some 4
   \<and> registry_has (registry_run (\<lambda>r. r mod 2) [Add 4, Add 6, Add 3, DestroySignal 6]) 0
   \<and> \<not> registry_has (registry_run (\<lambda>r. r mod 2) [Add 4, Add 6, Add 3, DestroySignal 4]) 0
   \<and> registry_has (registry_run (\<lambda>r. r mod 2) [Add 4, Add 6, Add 3, DestroySignal 4]) 1"
  using registry_has_between_add_and_destroy
      [of "\<lambda>r. r mod 2" "[Add 4, Add 6, Add 3]" 0 "registry_run (\<lambda>r. r mod 2) [Add 4]" 6]
    registry_has_between_add_and_destroy
      [of "\<lambda>r. r mod 2" "[Add 4, Add 6, Add 3]" 0 "registry_run (\<lambda>r. r mod 2) [Add 4]" 4]
  by (simp add: registry_run_def registry_add_def registry_has_def registry_get_def
      registry_empty_def registry_on_destroy_def)

section \<open>Properties of \<open>Room._onNetworkEntityDelete\<close>\<close>

lemma room_inv_add: "room_inv id_of s \<Longrightarrow> room_inv id_of (onNetworkEntityAdd id_of r s)"
  by (simp add: room_inv_def onNetworkEntityAdd_def registry_inv_add)

lemma room_inv_destroy: "room_inv id_of s \<Longrightarrow> room_inv id_of (entity_destroy id_of r s)"
  by (simp add: room_inv_def entity_destroy_def registry_inv_on_destroy)

lemma room_inv_delete:
  "room_inv id_of s \<Longrightarrow> room_inv id_of (fst (onNetworkEntityDelete id_of i s))"
  by (simp add: onNetworkEntityDelete_def room_inv_destroy split: option.splits)

lemma room_inv_step:
  "room_inv id_of (fst sd) \<Longrightarrow> room_inv id_of (fst (room_step id_of sd m))"
  by (cases sd; cases m) (simp_all add: room_inv_add room_inv_delete split_beta)

lemma room_run_snoc: "room_run id_of (ms @ [m]) = room_step id_of (room_run id_of ms) m"
  by (simp add: room_run_def)

lemma room_inv_run: "room_inv id_of (fst (room_run id_of ms))"
proof (induction ms rule: rev_induct)
  case Nil
  then show ?case
    by (simp add: room_run_def room_inv_def room_entities_empty_def registry_inv_empty)
next
  case (snoc m ms)
  then show ?case by (simp add: room_run_snoc room_inv_step)
qed

lemma delete_absent:
  "registry_get (room_networkEntities s) i = None \<Longrightarrow> onNetworkEntityDelete id_of i s = (s, [])"
  by (simp add: onNetworkEntityDelete_def)

lemma delete_present:
  assumes "room_inv id_of s" and "registry_get (room_networkEntities s) i = Some r"
  shows "snd (onNetworkEntityDelete id_of i s) = [r]"
    and "registry_get (room_networkEntities (fst (onNetworkEntityDelete id_of i s))) i = None"
proof -
  show "snd (onNetworkEntityDelete id_of i s) = [r]"
    using assms(2) by (simp add: onNetworkEntityDelete_def)
  have "registry_inv id_of (room_networkEntities s)"
    using assms(1) by (simp add: room_inv_def)
  then have "index (registry_on_destroy id_of r (room_networkEntities s)) i = None"
    using assms(2) by (simp add: registry_destroy_removes registry_get_def)
  then show "registry_get (room_networkEntities (fst (onNetworkEntityDelete id_of i s))) i = None"
    using assms(2) by (simp add: onNetworkEntityDelete_def entity_destroy_def registry_get_def)
qed

text \<open>
  C7. A delete for an id that the room's index does not hold changes nothing and
  destroys nothing. In a room reached by any history of add and delete messages, a
  delete for an id the index holds calls \<open>destroy\<close> on that entity once, the id is gone
  from the index afterwards, and a second delete for the same id changes nothing and
  destroys nothing.
\<close>

theorem delete_by_id_idempotent:
  "(registry_get (room_networkEntities s) i = None \<longrightarrow> onNetworkEntityDelete id_of i s = (s, []))
   \<and> (registry_get (room_networkEntities (fst (room_run id_of ms))) i = Some r \<longrightarrow>
        snd (onNetworkEntityDelete id_of i (fst (room_run id_of ms))) = [r]
        \<and> \<not> registry_has (room_networkEntities (fst (onNetworkEntityDelete id_of i (fst (room_run id_of ms))))) i
        \<and> onNetworkEntityDelete id_of i (fst (onNetworkEntityDelete id_of i (fst (room_run id_of ms))))
            = (fst (onNetworkEntityDelete id_of i (fst (room_run id_of ms))), []))"
proof -
  let ?s = "fst (room_run id_of ms)"
  have inv: "room_inv id_of ?s" by (rule room_inv_run)
  have gone: "registry_get (room_networkEntities ?s) i = Some r \<Longrightarrow>
      registry_get (room_networkEntities (fst (onNetworkEntityDelete id_of i ?s))) i = None"
    by (rule delete_present(2) [OF inv])
  have once: "registry_get (room_networkEntities ?s) i = Some r \<Longrightarrow>
      snd (onNetworkEntityDelete id_of i ?s) = [r]"
    by (rule delete_present(1) [OF inv])
  show ?thesis
    using gone once by (simp add: delete_absent registry_has_def registry_get_def)
qed

theorem delete_by_id_idempotent_witness:
  "registry_get (room_networkEntities (fst (room_run (\<lambda>r. JNum (int r)) [EntityAdd 5, EntityAdd 8]))) (JNum 3) = None
   \<and> registry_get (room_networkEntities (fst (room_run (\<lambda>r. JNum (int r)) [EntityAdd 5, EntityAdd 8]))) (JNum 5) = Some 5
   \<and> room_run (\<lambda>r. JNum (int r))
         [EntityAdd 5, EntityAdd 8, EntityDelete (JNum 3), EntityDelete (JNum 5), EntityDelete (JNum 5)]
       = (\<lparr>room_networkEntities = \<lparr>index = [JNum 8 \<mapsto> 8], once_destroy = [8]\<rparr>,
           pn_networkEntities_reg = \<lparr>index = [JNum 8 \<mapsto> 8], once_destroy = [8]\<rparr>\<rparr>, [5])"
  using delete_by_id_idempotent
     [of "fst (room_run (\<lambda>r. JNum (int r)) [EntityAdd 5, EntityAdd 8])" "JNum 3" "\<lambda>r. JNum (int r)"
         "[EntityAdd 5, EntityAdd 8]" 5]
     delete_by_id_idempotent
     [of "fst (room_run (\<lambda>r. JNum (int r)) [EntityAdd 5, EntityAdd 8])" "JNum 5" "\<lambda>r. JNum (int r)"
         "[EntityAdd 5, EntityAdd 8]" 5]
  by (simp add: room_run_def room_entities_empty_def registry_empty_def onNetworkEntityAdd_def
      onNetworkEntityDelete_def entity_destroy_def registry_add_def registry_has_def registry_get_def
      registry_on_destroy_def fun_upd_twist)

section \<open>Properties of \<open>User.addPlayer\<close>\<close>

lemma user_inv_key:
  "user_inv u \<Longrightarrow> kv \<in> set (playersByRoom u) \<Longrightarrow>
   \<exists>q \<in> u_players u. (q, fst kv) \<in> set (on_player_destroy u)"
  unfolding user_inv_def by blast

lemma user_inv_player:
  "user_inv u \<Longrightarrow> p \<in> u_players u \<Longrightarrow> \<exists>k. (p, k) \<in> set (on_player_destroy u)"
  unfolding user_inv_def by blast

lemma user_invI:
  assumes "\<And>kv. kv \<in> set (playersByRoom u) \<Longrightarrow>
             \<exists>q \<in> u_players u. (q, fst kv) \<in> set (on_player_destroy u)"
    and "\<And>p. p \<in> u_players u \<Longrightarrow> \<exists>k. (p, k) \<in> set (on_player_destroy u)"
  shows "user_inv u"
  unfolding user_inv_def using assms by blast

lemma map_set_keys: "fst ` set (map_set k v m) = insert k (fst ` set m)"
proof (cases "k \<in> fst ` set m")
  case True
  have "map fst (map (\<lambda>kv. if fst kv = k then (k, v) else kv) m) = map fst m"
    by (induction m) auto
  then have "fst ` set (map (\<lambda>kv. if fst kv = k then (k, v) else kv) m) = fst ` set m"
    by (metis set_map)
  with True show ?thesis by (simp add: map_set_def insert_absorb)
next
  case False
  then show ?thesis by (simp add: map_set_def)
qed

lemma player_destroyed_fields:
  "u_me (player_destroyed c v) = u_me v"
  "on_player_destroy (player_destroyed c v) = on_player_destroy v"
  "playersByRoom (player_destroyed c v) = map_delete (snd c) (playersByRoom v)"
  "u_players (player_destroyed c v) = u_players v - {fst c}"
  by (simp_all add: player_destroyed_def Let_def)

lemma fold_destroyed_me: "u_me (fold player_destroyed cs v) = u_me v"
  by (induction cs arbitrary: v) (simp_all add: player_destroyed_fields)

lemma fold_destroyed_listeners:
  "on_player_destroy (fold player_destroyed cs v) = on_player_destroy v"
  by (induction cs arbitrary: v) (simp_all add: player_destroyed_fields)

lemma fold_destroyed_map:
  "playersByRoom (fold player_destroyed cs v)
     = filter (\<lambda>kv. fst kv \<notin> snd ` set cs) (playersByRoom v)"
proof (induction cs arbitrary: v)
  case Nil
  then show ?case by simp
next
  case (Cons c cs)
  have "filter (\<lambda>kv. fst kv \<notin> snd ` set cs) (map_delete (snd c) (playersByRoom v))
        = filter (\<lambda>kv. fst kv \<notin> snd ` set (c # cs)) (playersByRoom v)"
    by (induction "playersByRoom v") (auto simp add: map_delete_def)
  then show ?case using Cons.IH [of "player_destroyed c v"]
    by (simp add: player_destroyed_fields)
qed

lemma fold_destroyed_players:
  "u_players (fold player_destroyed cs v) = u_players v - fst ` set cs"
proof (induction cs arbitrary: v)
  case Nil
  then show ?case by simp
next
  case (Cons c cs)
  show ?case using Cons.IH [of "player_destroyed c v"]
    by (auto simp add: player_destroyed_fields)
qed

lemma player_destroyed_fired:
  "fired (player_destroyed c v) =
     fired v @ EvLeave (snd c) (fst c)
       # (if u_me v \<or> map_delete (snd c) (playersByRoom v) \<noteq> [] then [] else [EvDestroy])"
  by (simp add: player_destroyed_def Let_def)

lemma fold_destroyed_fired:
  "\<exists>ls. fired (fold player_destroyed cs v) = fired v @ ls
        \<and> (cs \<noteq> [] \<and> \<not> u_me v \<and> playersByRoom (fold player_destroyed cs v) = []
             \<longrightarrow> EvDestroy \<in> set ls)
        \<and> (u_me v \<longrightarrow> EvDestroy \<notin> set ls)"
proof (induction cs arbitrary: v)
  case Nil
  then show ?case by simp
next
  case (Cons c cs)
  let ?w = "player_destroyed c v"
  obtain ls where ls: "fired (fold player_destroyed cs ?w) = fired ?w @ ls"
    and fin: "cs \<noteq> [] \<and> \<not> u_me ?w \<and> playersByRoom (fold player_destroyed cs ?w) = []
             \<longrightarrow> EvDestroy \<in> set ls"
    and loc: "u_me ?w \<longrightarrow> EvDestroy \<notin> set ls"
    using Cons.IH [of ?w] by blast
  let ?hd = "EvLeave (snd c) (fst c)
       # (if u_me v \<or> map_delete (snd c) (playersByRoom v) \<noteq> [] then [] else [EvDestroy])"
  have eq: "fired (fold player_destroyed (c # cs) v) = fired v @ (?hd @ ls)"
    using ls by (simp add: player_destroyed_fired)
  have a: "EvDestroy \<in> set (?hd @ ls)"
    if "\<not> u_me v" and "playersByRoom (fold player_destroyed (c # cs) v) = []"
  proof (cases "cs = []")
    case True
    with that show ?thesis by (simp add: player_destroyed_fields)
  next
    case False
    with that fin show ?thesis by (simp add: player_destroyed_fields)
  qed
  have b: "EvDestroy \<notin> set (?hd @ ls)" if "u_me v"
    using that loc by (simp add: player_destroyed_fields)
  show ?case using eq a b by blast
qed

lemma user_inv_new: "user_inv (user_new me)"
  by (rule user_invI) (simp_all add: user_new_def)

lemma user_inv_addPlayer:
  assumes "user_inv u"
  shows "user_inv (addPlayer p room u)"
proof (rule user_invI)
  fix kv
  assume "kv \<in> set (playersByRoom (addPlayer p room u))"
  then have "fst kv \<in> fst ` set (map_set room p (playersByRoom u))"
    by (simp add: addPlayer_def)
  then have "fst kv = room \<or> fst kv \<in> fst ` set (playersByRoom u)"
    by (simp add: map_set_keys)
  then show "\<exists>q \<in> u_players (addPlayer p room u).
               (q, fst kv) \<in> set (on_player_destroy (addPlayer p room u))"
  proof
    assume "fst kv = room"
    then show ?thesis by (simp add: addPlayer_def)
  next
    assume "fst kv \<in> fst ` set (playersByRoom u)"
    then obtain kv' where "kv' \<in> set (playersByRoom u)" and "fst kv' = fst kv" by auto
    then obtain q where "q \<in> u_players u" and "(q, fst kv) \<in> set (on_player_destroy u)"
      using user_inv_key [OF assms, of kv'] by auto
    then show ?thesis by (auto simp add: addPlayer_def)
  qed
next
  fix q
  assume "q \<in> u_players (addPlayer p room u)"
  then have "q = p \<or> q \<in> u_players u" by (simp add: addPlayer_def)
  then show "\<exists>k. (q, k) \<in> set (on_player_destroy (addPlayer p room u))"
  proof
    assume "q = p"
    then show ?thesis by (auto simp add: addPlayer_def)
  next
    assume "q \<in> u_players u"
    then obtain k where "(q, k) \<in> set (on_player_destroy u)"
      using user_inv_player [OF assms] by blast
    then show ?thesis by (auto simp add: addPlayer_def)
  qed
qed

lemma fire_player_destroy_fields:
  "on_player_destroy (fire_player_destroy p u) = filter (\<lambda>c. fst c \<noteq> p) (on_player_destroy u)"
  "playersByRoom (fire_player_destroy p u)
     = filter (\<lambda>kv. fst kv \<notin> snd ` set (filter (\<lambda>c. fst c = p) (on_player_destroy u)))
         (playersByRoom u)"
  "u_players (fire_player_destroy p u)
     = u_players u - fst ` set (filter (\<lambda>c. fst c = p) (on_player_destroy u))"
  "u_me (fire_player_destroy p u) = u_me u"
  by (simp_all add: fire_player_destroy_def fold_destroyed_listeners fold_destroyed_map
      fold_destroyed_players fold_destroyed_me)

lemma user_inv_fire_player_destroy:
  assumes "user_inv u"
  shows "user_inv (fire_player_destroy p u)"
proof (rule user_invI)
  fix kv
  assume "kv \<in> set (playersByRoom (fire_player_destroy p u))"
  then have mem: "kv \<in> set (playersByRoom u)"
    and kept: "(p, fst kv) \<notin> set (on_player_destroy u)"
    by (auto simp add: fire_player_destroy_fields image_iff)
  obtain q where q: "q \<in> u_players u" "(q, fst kv) \<in> set (on_player_destroy u)"
    using user_inv_key [OF assms mem] by blast
  with kept have "q \<noteq> p" by auto
  with q show "\<exists>q \<in> u_players (fire_player_destroy p u).
               (q, fst kv) \<in> set (on_player_destroy (fire_player_destroy p u))"
    by (auto simp add: fire_player_destroy_fields)
next
  fix q
  assume "q \<in> u_players (fire_player_destroy p u)"
  then have q: "q \<in> u_players u"
    and away: "q \<notin> fst ` set (filter (\<lambda>c. fst c = p) (on_player_destroy u))"
    by (simp_all add: fire_player_destroy_fields)
  obtain k where k: "(q, k) \<in> set (on_player_destroy u)"
    using user_inv_player [OF assms q] by blast
  with away have "q \<noteq> p" by force
  with k show "\<exists>k. (q, k) \<in> set (on_player_destroy (fire_player_destroy p u))"
    by (auto simp add: fire_player_destroy_fields)
qed

lemma user_inv_fire_room_destroy: "user_inv u \<Longrightarrow> user_inv (fire_room_destroy room u)"
  by (simp add: user_inv_def fire_room_destroy_def)

lemma user_inv_step: "user_inv u \<Longrightarrow> user_inv (user_step u op)"
  by (cases op)
    (simp_all add: user_inv_addPlayer user_inv_fire_player_destroy user_inv_fire_room_destroy)

lemma user_run_snoc: "user_run me (ops @ [op]) = user_step (user_run me ops) op"
  by (simp add: user_run_def)

lemma user_inv_run: "user_inv (user_run me ops)"
proof (induction ops rule: rev_induct)
  case Nil
  then show ?case by (simp add: user_run_def user_inv_new)
next
  case (snoc op ops)
  then show ?case by (simp add: user_run_snoc user_inv_step)
qed

lemma user_step_me: "u_me (user_step u op) = u_me u"
  by (cases op) (simp_all add: addPlayer_def fire_player_destroy_fields fire_room_destroy_def)

lemma user_run_me: "u_me (user_run me ops) = me"
  by (induction ops rule: rev_induct) (simp_all add: user_run_def user_new_def user_step_me)

lemma fire_player_destroy_fired:
  "\<exists>ls. fired (fire_player_destroy p u) = fired u @ ls
        \<and> (filter (\<lambda>c. fst c = p) (on_player_destroy u) \<noteq> [] \<and> \<not> u_me u
             \<and> playersByRoom (fire_player_destroy p u) = [] \<longrightarrow> EvDestroy \<in> set ls)
        \<and> (u_me u \<longrightarrow> EvDestroy \<notin> set ls)"
  using fold_destroyed_fired
    [of "filter (\<lambda>c. fst c = p) (on_player_destroy u)"
        "u\<lparr>on_player_destroy := filter (\<lambda>c. fst c \<noteq> p) (on_player_destroy u)\<rparr>"]
  by (simp add: fire_player_destroy_def)

lemma local_user_step_keeps:
  assumes "u_me u" and "EvDestroy \<notin> set (fired u)"
  shows "EvDestroy \<notin> set (fired (user_step u op))"
proof (cases op)
  case (AddPlayer p room)
  then show ?thesis using assms by (simp add: addPlayer_def)
next
  case (PlayerDestroy p)
  obtain ls where "fired (fire_player_destroy p u) = fired u @ ls" and "EvDestroy \<notin> set ls"
    using fire_player_destroy_fired [of p u] assms(1) by blast
  then show ?thesis using PlayerDestroy assms(2) by simp
next
  case (RoomDestroy room)
  then show ?thesis using assms by (simp add: fire_room_destroy_def)
qed

lemma local_user_never_destroyed: "EvDestroy \<notin> set (fired (user_run True ops))"
proof (induction ops rule: rev_induct)
  case Nil
  then show ?case by (simp add: user_run_def user_new_def)
next
  case (snoc op ops)
  then show ?case using local_user_step_keeps [of "user_run True ops" op]
    by (simp add: user_run_snoc user_run_me)
qed

lemma last_player_destroy:
  assumes inv: "user_inv u" and me: "\<not> u_me u" and last: "u_players u = {p}"
  shows "EvDestroy \<in> set (drop (length (fired u)) (fired (fire_player_destroy p u)))"
    and "u_players (fire_player_destroy p u) = {}"
proof -
  let ?cs = "filter (\<lambda>c. fst c = p) (on_player_destroy u)"
  obtain k where k: "(p, k) \<in> set (on_player_destroy u)"
    using user_inv_player [OF inv, of p] last by auto
  then have ne: "?cs \<noteq> []" by (force simp add: filter_empty_conv)
  have "kv \<notin> set (playersByRoom (fire_player_destroy p u))" for kv
  proof
    assume h: "kv \<in> set (playersByRoom (fire_player_destroy p u))"
    then have mem: "kv \<in> set (playersByRoom u)"
      and kept: "(p, fst kv) \<notin> set (on_player_destroy u)"
      by (auto simp add: fire_player_destroy_fields image_iff)
    obtain q where "q \<in> u_players u" "(q, fst kv) \<in> set (on_player_destroy u)"
      using user_inv_key [OF inv mem] by blast
    with last kept show False by auto
  qed
  then have empty: "playersByRoom (fire_player_destroy p u) = []"
    by (cases "playersByRoom (fire_player_destroy p u)") auto
  obtain ls where ls: "fired (fire_player_destroy p u) = fired u @ ls" and "EvDestroy \<in> set ls"
    using fire_player_destroy_fired [of p u] ne me empty by blast
  then show "EvDestroy \<in> set (drop (length (fired u)) (fired (fire_player_destroy p u)))"
    by simp
  have "p \<in> fst ` set ?cs" using k by force
  then show "u_players (fire_player_destroy p u) = {}"
    using last by (auto simp add: fire_player_destroy_fields)
qed

text \<open>
  C8. For a user that is not local, after any history of player additions, player
  destroy signals and room destroy signals: when exactly one player is left and its
  destroy signal fires, the user's own \<open>destroy\<close> is fired among the events of that very
  step, and the user has no player left. A local user never fires \<open>destroy\<close>, whatever
  the history.
\<close>

theorem last_player_removal_destroys_user:
  "(u_players (user_run False ops) = {p} \<longrightarrow>
      EvDestroy \<in> set (drop (length (fired (user_run False ops)))
                          (fired (fire_player_destroy p (user_run False ops))))
      \<and> u_players (fire_player_destroy p (user_run False ops)) = {})
   \<and> EvDestroy \<notin> set (fired (user_run True ops))"
  using last_player_destroy [OF user_inv_run, of False ops p] local_user_never_destroyed [of ops]
  by (simp add: user_run_me)

theorem last_player_removal_destroys_user_witness:
  "u_players (user_run False [AddPlayer 1 10, AddPlayer 2 20, PlayerDestroy 1]) = {2}
   \<and> fired (user_run False [AddPlayer 1 10, AddPlayer 2 20, PlayerDestroy 1])
       = [EvJoin 10 1, EvJoin 20 2, EvLeave 10 1]
   \<and> fired (fire_player_destroy 2 (user_run False [AddPlayer 1 10, AddPlayer 2 20, PlayerDestroy 1]))
       = [EvJoin 10 1, EvJoin 20 2, EvLeave 10 1, EvLeave 20 2, EvDestroy]
   \<and> fired (fire_player_destroy 2 (user_run True [AddPlayer 1 10, AddPlayer 2 20, PlayerDestroy 1]))
       = [EvJoin 10 1, EvJoin 20 2, EvLeave 10 1, EvLeave 20 2]"
  using last_player_removal_destroys_user [of "[AddPlayer 1 10, AddPlayer 2 20, PlayerDestroy 1]" 2]
  by (simp add: user_run_def user_new_def addPlayer_def fire_player_destroy_def
      player_destroyed_def map_set_def map_delete_def Let_def insert_Diff_if)

end
